theory Spec2Isabelle
  imports Main "HOL-Library.Word"
begin

unbundle bit_operations_syntax

section \<open>The streaming SSE client of \<^verbatim>\<open>frontend/src/api/knowledgebase.ts\<close>\<close>

text \<open>
  The development embeds \<^verbatim>\<open>knowledgeBaseApi.queryKnowledgeBaseStream\<close>: the status
  check, the read loop with its incremental UTF-8 decoding and line splitting, the
  dispatch of \<^verbatim>\<open>data:\<close> lines, the treatment of the residual buffer and the outer
  \<^verbatim>\<open>try/catch\<close>. What the function does to the outside world is the sequence of callback
  invocations it makes; the model returns that sequence.
\<close>

subsection \<open>JavaScript strings and the string methods the function calls\<close>

text \<open>
  A JavaScript string is a sequence of 16-bit code units; the bytes of a
  \<^verbatim>\<open>Uint8Array\<close> are 8-bit words.
\<close>

type_synonym byte = "8 word"
type_synonym code_unit = "16 word"
type_synonym jsstring = "code_unit list"

definition ascii :: "string \<Rightarrow> jsstring" where
  "ascii s = map of_char s"

definition utf8_ascii :: "string \<Rightarrow> byte list" where
  "utf8_ascii s = map of_char s"

definition newline :: code_unit where
  "newline = 0x0A"

text \<open>The literal \<^verbatim>\<open>'data:'\<close> of lines 144 and 155.\<close>

definition data_prefix :: jsstring where
  "data_prefix = [0x64, 0x61, 0x74, 0x61, 0x3A]"

text \<open>
  \<^verbatim>\<open>s.split(sep)\<close> for a one-character separator: the pieces between the
  occurrences of the separator, always at least one piece.
\<close>

fun split_on :: "'a \<Rightarrow> 'a list \<Rightarrow> 'a list list" where
  "split_on sep [] = [[]]"
| "split_on sep (c # cs) =
     (if c = sep then [] # split_on sep cs
      else (case split_on sep cs of
              [] \<Rightarrow> [[c]]
            | piece # pieces \<Rightarrow> (c # piece) # pieces))"

text \<open>
  \<^verbatim>\<open>lines.pop()\<close> removes the last element of the array and returns it,
  \<^verbatim>\<open>undefined\<close> (here \<open>None\<close>) on an empty array; \<^verbatim>\<open>x || ''\<close> replaces
  \<^verbatim>\<open>undefined\<close> and the empty string by the empty string.
\<close>

definition pop :: "'a list \<Rightarrow> 'a option \<times> 'a list" where
  "pop xs = (if xs = [] then (None, []) else (Some (last xs), butlast xs))"

definition or_empty :: "jsstring option \<Rightarrow> jsstring" where
  "or_empty v = (case v of None \<Rightarrow> [] | Some s \<Rightarrow> (if s = [] then [] else s))"

definition startsWith :: "jsstring \<Rightarrow> jsstring \<Rightarrow> bool" where
  "startsWith s p = (take (length p) s = p)"

definition substring :: "nat \<Rightarrow> jsstring \<Rightarrow> jsstring" where
  "substring start s = drop start s"

text \<open>
  \<^verbatim>\<open>String.prototype.trim\<close> removes the ECMAScript white space and line terminator
  code units from both ends: TAB, LF, VT, FF, CR, SPACE, NBSP, U+1680, U+2000 to U+200A,
  U+2028, U+2029, U+202F, U+205F, U+3000 and U+FEFF.
\<close>

definition is_whitespace :: "code_unit \<Rightarrow> bool" where
  "is_whitespace c =
     (c = 0x09 \<or> c = 0x0A \<or> c = 0x0B \<or> c = 0x0C \<or> c = 0x0D \<or> c = 0x20 \<or> c = 0xA0
      \<or> c = 0x1680 \<or> (0x2000 \<le> c \<and> c \<le> 0x200A) \<or> c = 0x2028 \<or> c = 0x2029
      \<or> c = 0x202F \<or> c = 0x205F \<or> c = 0x3000 \<or> c = 0xFEFF)"

definition trim :: "jsstring \<Rightarrow> jsstring" where
  "trim s = rev (dropWhile is_whitespace (rev (dropWhile is_whitespace s)))"

text \<open>The decimal digits of a number, as a template literal prints an integer.\<close>

fun decimal :: "nat \<Rightarrow> jsstring" where
  "decimal n =
     (if n < 10 then [of_nat (48 + n)]
      else decimal (n div 10) @ [of_nat (48 + n mod 10)])"

subsection \<open>\<^verbatim>\<open>TextDecoder\<close>: the streaming UTF-8 decoder of the platform\<close>

text \<open>
  \<^verbatim>\<open>new TextDecoder()\<close> is the UTF-8 decoder of the WHATWG Encoding Standard in
  replacement mode (not fatal) that strips a leading byte order mark. Its state is the
  code point under construction, the number of continuation bytes seen and needed, the
  bounds for the next continuation byte, and whether the first code point has been
  serialised. With \<^verbatim>\<open>{ stream: true }\<close> the state survives from one call of
  \<^verbatim>\<open>decode\<close> to the next, and an incomplete sequence at the end of a chunk is kept in
  the state, not emitted. The function never makes a final flushing call.
\<close>

record utf8_decoder =
  code_point :: nat
  bytes_seen :: nat
  bytes_needed :: nat
  lower_boundary :: byte
  upper_boundary :: byte
  bom_seen :: bool

definition new_TextDecoder :: utf8_decoder where
  "new_TextDecoder =
     \<lparr>code_point = 0, bytes_seen = 0, bytes_needed = 0,
      lower_boundary = 0x80, upper_boundary = 0xBF, bom_seen = False\<rparr>"

definition replacement :: nat where
  "replacement = 0xFFFD"

definition reset :: "utf8_decoder \<Rightarrow> utf8_decoder" where
  "reset d = d\<lparr>code_point := 0, bytes_seen := 0, bytes_needed := 0,
              lower_boundary := 0x80, upper_boundary := 0xBF\<rparr>"

text \<open>Step 3 of the handler: no sequence is open, the byte starts one.\<close>

definition lead_byte :: "utf8_decoder \<Rightarrow> byte \<Rightarrow> utf8_decoder \<times> nat list" where
  "lead_byte d b =
     (if b \<le> 0x7F then (d, [unat b])
      else if 0xC2 \<le> b \<and> b \<le> 0xDF then
        (d\<lparr>bytes_needed := 1, code_point := unat (b AND 0x1F)\<rparr>, [])
      else if 0xE0 \<le> b \<and> b \<le> 0xEF then
        (d\<lparr>lower_boundary := (if b = 0xE0 then 0xA0 else lower_boundary d),
           upper_boundary := (if b = 0xED then 0x9F else upper_boundary d),
           bytes_needed := 2, code_point := unat (b AND 0x0F)\<rparr>, [])
      else if 0xF0 \<le> b \<and> b \<le> 0xF4 then
        (d\<lparr>lower_boundary := (if b = 0xF0 then 0x90 else lower_boundary d),
           upper_boundary := (if b = 0xF4 then 0x8F else upper_boundary d),
           bytes_needed := 3, code_point := unat (b AND 0x07)\<rparr>, [])
      else (d, [replacement]))"

text \<open>
  The handler on one byte, with the code points it emits. A byte outside the bounds
  ends the open sequence with U+FFFD and is read again by the reset decoder.
\<close>

definition handler :: "utf8_decoder \<Rightarrow> byte \<Rightarrow> utf8_decoder \<times> nat list" where
  "handler d b =
     (if bytes_needed d = 0 then lead_byte d b
      else if \<not> (lower_boundary d \<le> b \<and> b \<le> upper_boundary d) then
        (let (d', out) = lead_byte (reset d) b in (d', replacement # out))
      else
        (let d1 = d\<lparr>lower_boundary := 0x80, upper_boundary := 0xBF,
                     code_point := push_bit 6 (code_point d) OR unat (b AND 0x3F),
                     bytes_seen := bytes_seen d + 1\<rparr>
         in if bytes_seen d1 \<noteq> bytes_needed d1 then (d1, [])
            else (reset d1, [code_point d1])))"

fun process_queue :: "utf8_decoder \<Rightarrow> byte list \<Rightarrow> utf8_decoder \<times> nat list" where
  "process_queue d [] = (d, [])"
| "process_queue d (b # bs) =
     (let (d1, out1) = handler d b;
          (d2, out2) = process_queue d1 bs
      in (d2, out1 @ out2))"

text \<open>Serialising the code points: the first one ever is dropped when it is U+FEFF.\<close>

fun serialize :: "bool \<Rightarrow> nat list \<Rightarrow> bool \<times> nat list" where
  "serialize seen [] = (seen, [])"
| "serialize seen (item # rest) =
     (if \<not> seen then
        (let (seen', out) = serialize True rest
         in (seen', if item = 0xFEFF then out else item # out))
      else
        (let (seen', out) = serialize seen rest in (seen', item # out)))"

text \<open>A code point as one code unit, or as a surrogate pair.\<close>

definition utf16 :: "nat \<Rightarrow> jsstring" where
  "utf16 cp =
     (if cp < 0x10000 then [of_nat cp]
      else [of_nat (0xD800 + (cp - 0x10000) div 0x400),
            of_nat (0xDC00 + (cp - 0x10000) mod 0x400)])"

text \<open>\<^verbatim>\<open>decoder.decode(value, { stream: true })\<close>.\<close>

definition decode :: "utf8_decoder \<Rightarrow> byte list \<Rightarrow> utf8_decoder \<times> jsstring" where
  "decode d val =
     (let (d1, output) = process_queue d val;
          (seen, items) = serialize (bom_seen d) output
      in (d1\<lparr>bom_seen := seen\<rparr>, concat (map utf16 items)))"

subsection \<open>The response, the thrown values and the callbacks\<close>

text \<open>
  A thrown value is an \<^verbatim>\<open>Error\<close> object with its message, or any other value.
\<close>

datatype thrown = Error jsstring | NotAnError nat

text \<open>
  The value \<^verbatim>\<open>response.json()\<close> resolves to. Numbers are restricted to the integers
  of magnitude below \<open>10\<^sup>2\<^sup>1\<close>, which JavaScript prints as their decimal digits.
\<close>

datatype json =
    JNull
  | JBool bool
  | JNum int
  | JStr jsstring
  | JArr "json list"
  | JObj "(jsstring \<times> json) list"

text \<open>
  The body stream as the reader delivers it: the chunks of the successive
  \<^verbatim>\<open>reader.read()\<close> calls, then either \<^verbatim>\<open>done\<close> (\<open>None\<close>) or a rejected read.
  A stream whose next read never settles is not covered: the function then waits in
  line 126 and makes no further invocation.
\<close>

record body_stream =
  chunks :: "byte list list"
  ending :: "thrown option"

text \<open>
  The response: its status, what \<^verbatim>\<open>response.json()\<close> does (a rejection, or the
  parsed value), and \<^verbatim>\<open>response.body\<close> (\<open>None\<close> for \<^verbatim>\<open>null\<close>).
\<close>

record response =
  status :: nat
  json_body :: "thrown + json"
  body :: "body_stream option"

text \<open>\<^verbatim>\<open>response.ok\<close> is true for the statuses 200 to 299.\<close>

definition ok :: "response \<Rightarrow> bool" where
  "ok r = (200 \<le> status r \<and> status r \<le> 299)"

text \<open>
  One invocation of a callback of the caller. \<open>OnError\<close> carries the message of the
  \<^verbatim>\<open>Error\<close> the function builds in line 163.
\<close>

datatype event = OnMessage jsstring | OnComplete | OnError jsstring

text \<open>
  The callbacks are the caller's code and return nothing; the only way they can change
  what the function does next is by throwing. A callback is given by whether an
  invocation throws, which may depend on the invocations made before it.
  \<^verbatim>\<open>onError\<close> is invoked in the \<^verbatim>\<open>catch\<close> block, as the last thing the function
  does, so what it does changes no invocation.
\<close>

record callbacks =
  onMessage :: "event list \<Rightarrow> jsstring \<Rightarrow> thrown option"
  onComplete :: "event list \<Rightarrow> thrown option"

definition returning :: callbacks where
  "returning = \<lparr>onMessage = (\<lambda>_ _. None), onComplete = (\<lambda>_. None)\<rparr>"

definition returns_normally :: "callbacks \<Rightarrow> bool" where
  "returns_normally cbs = ((\<forall>h p. onMessage cbs h p = None) \<and> (\<forall>h. onComplete cbs h = None))"

text \<open>Callbacks of which \<^verbatim>\<open>onComplete\<close> throws an \<^verbatim>\<open>Error\<close>.\<close>

definition throwing_onComplete :: callbacks where
  "throwing_onComplete =
     \<lparr>onMessage = (\<lambda>_ _. None), onComplete = (\<lambda>_. Some (Error (ascii ''boom'')))\<rparr>"

subsection \<open>JavaScript values in a condition and in a string context\<close>

fun truthy :: "json \<Rightarrow> bool" where
  "truthy JNull = False"
| "truthy (JBool b) = b"
| "truthy (JNum n) = (n \<noteq> 0)"
| "truthy (JStr s) = (s \<noteq> [])"
| "truthy (JArr _) = True"
| "truthy (JObj _) = True"

text \<open>
  \<^verbatim>\<open>errorData.message\<close>: the member of an object (the last one of that name wins when
  the text repeats it), \<^verbatim>\<open>undefined\<close> (\<open>None\<close>) on anything else that is not null.
\<close>

definition message_key :: jsstring where
  "message_key = [0x6D, 0x65, 0x73, 0x73, 0x61, 0x67, 0x65]"

fun get_message :: "json \<Rightarrow> json option" where
  "get_message (JObj members) = map_of (rev members) message_key"
| "get_message _ = None"

fun join_comma :: "jsstring list \<Rightarrow> jsstring" where
  "join_comma [] = []"
| "join_comma [s] = s"
| "join_comma (s # t # rest) = s @ [0x2C] @ join_comma (t # rest)"

text \<open>The string \<^verbatim>\<open>new Error(v)\<close> takes as its message.\<close>

fun to_string :: "json \<Rightarrow> jsstring" where
  "to_string JNull = [0x6E, 0x75, 0x6C, 0x6C]"
| "to_string (JBool b) =
     (if b then [0x74, 0x72, 0x75, 0x65] else [0x66, 0x61, 0x6C, 0x73, 0x65])"
| "to_string (JNum n) = (if n < 0 then 0x2D # decimal (nat (- n)) else decimal (nat n))"
| "to_string (JStr s) = s"
| "to_string (JArr vs) =
     join_comma (map (\<lambda>v. if v = JNull then [] else to_string v) vs)"
| "to_string (JObj _) =
     [0x5B, 0x6F, 0x62, 0x6A, 0x65, 0x63, 0x74, 0x20, 0x4F, 0x62, 0x6A, 0x65, 0x63, 0x74, 0x5D]"

subsection \<open>The function\<close>

text \<open>The messages of lines 114 and 119.\<close>

definition request_failed :: "nat \<Rightarrow> jsstring" where
  "request_failed n = [0x8BF7, 0x6C42, 0x5931, 0x8D25, 0x20, 0x28] @ decimal n @ [0x29]"

definition no_stream_message :: jsstring where
  "no_stream_message = [0x65E0, 0x6CD5, 0x83B7, 0x53D6, 0x54CD, 0x5E94, 0x6D41]"

text \<open>
  Lines 107 to 110, the body of the inner \<^verbatim>\<open>try\<close>: \<open>Inl\<close> is what it throws, the
  rejection of \<^verbatim>\<open>response.json()\<close> or the \<^verbatim>\<open>Error\<close> of line 109.
\<close>

definition parse_error_response :: "response \<Rightarrow> thrown + unit" where
  "parse_error_response r =
     (case json_body r of
        Inl e \<Rightarrow> Inl e
      | Inr errorData \<Rightarrow>
          (if truthy errorData then
             (case get_message errorData of
                None \<Rightarrow> Inr ()
              | Some m \<Rightarrow> (if truthy m then Inl (Error (to_string m)) else Inr ()))
           else Inr ()))"

text \<open>Lines 111 to 113: \<^verbatim>\<open>catch { }\<close> drops whatever the inner \<^verbatim>\<open>try\<close> threw.\<close>

definition catch_ignore :: "thrown + unit \<Rightarrow> unit" where
  "catch_ignore r = (case r of Inl _ \<Rightarrow> () | Inr u \<Rightarrow> u)"

text \<open>Lines 104 to 115: the value thrown by the status check, if any.\<close>

definition check_status :: "response \<Rightarrow> thrown option" where
  "check_status r =
     (if \<not> ok r then
        (case catch_ignore (parse_error_response r) of
           () \<Rightarrow> Some (Error (request_failed (status r))))
      else None)"

text \<open>
  An invocation is recorded, then it returns or throws.
\<close>

definition call_onMessage :: "callbacks \<Rightarrow> jsstring \<Rightarrow> event list \<Rightarrow> event list \<times> thrown option" where
  "call_onMessage cbs content tr = (tr @ [OnMessage content], onMessage cbs tr content)"

definition call_onComplete :: "callbacks \<Rightarrow> event list \<Rightarrow> event list \<times> thrown option" where
  "call_onComplete cbs tr = (tr @ [OnComplete], onComplete cbs tr)"

text \<open>Lines 144 to 149, the body of the \<^verbatim>\<open>for\<close> loop on one line.\<close>

definition process_line :: "callbacks \<Rightarrow> jsstring \<Rightarrow> event list \<Rightarrow> event list \<times> thrown option" where
  "process_line cbs line tr =
     (if startsWith line data_prefix then
        (let content = trim (substring 5 line)
         in if content \<noteq> [] then call_onMessage cbs content tr else (tr, None))
      else (tr, None))"

text \<open>Lines 142 to 150: the lines in order, until a callback throws.\<close>

fun for_lines :: "callbacks \<Rightarrow> jsstring list \<Rightarrow> event list \<Rightarrow> event list \<times> thrown option" where
  "for_lines cbs [] tr = (tr, None)"
| "for_lines cbs (line # rest) tr =
     (case process_line cbs line tr of
        (tr', Some e) \<Rightarrow> (tr', Some e)
      | (tr', None) \<Rightarrow> for_lines cbs rest tr')"

text \<open>The variables of the loop, and the invocations made so far.\<close>

record loop_state =
  decoder :: utf8_decoder
  buffer :: jsstring
  trace :: "event list"

text \<open>Lines 134 to 150: one iteration of the loop on a chunk that was read.\<close>

definition process_chunk :: "callbacks \<Rightarrow> loop_state \<Rightarrow> byte list \<Rightarrow> loop_state \<times> thrown option" where
  "process_chunk cbs st val =
     (let (d, text) = decode (decoder st) val;
          buffer1 = buffer st @ text;
          lines = split_on newline buffer1;
          (popped, lines') = pop lines;
          buffer2 = or_empty popped;
          (tr, thrown) = for_lines cbs lines' (trace st)
      in (\<lparr>decoder = d, buffer = buffer2, trace = tr\<rparr>, thrown))"

text \<open>
  Lines 125 to 151: the loop. When the chunks are used up the next read either
  rejects, or reports \<^verbatim>\<open>done\<close>: then \<^verbatim>\<open>onComplete()\<close> is called and the loop is left.
\<close>

fun read_loop :: "callbacks \<Rightarrow> loop_state \<Rightarrow> byte list list \<Rightarrow> thrown option \<Rightarrow> loop_state \<times> thrown option" where
  "read_loop cbs st [] end_of_stream =
     (case end_of_stream of
        Some e \<Rightarrow> (st, Some e)
      | None \<Rightarrow> (case call_onComplete cbs (trace st) of (tr, thrown) \<Rightarrow> (st\<lparr>trace := tr\<rparr>, thrown)))"
| "read_loop cbs st (val # rest) end_of_stream =
     (case process_chunk cbs st val of
        (st', Some e) \<Rightarrow> (st', Some e)
      | (st', None) \<Rightarrow> read_loop cbs st' rest end_of_stream)"

text \<open>Lines 153 to 161, after the loop.\<close>

definition process_rest :: "callbacks \<Rightarrow> jsstring \<Rightarrow> event list \<Rightarrow> event list \<times> thrown option" where
  "process_rest cbs buf tr =
     (if trim buf \<noteq> [] then
        (if startsWith buf data_prefix then
           (let content = trim (substring 5 buf)
            in if content \<noteq> [] then call_onMessage cbs content tr else (tr, None))
         else (tr, None))
      else (tr, None))"

text \<open>
  Lines 96 to 161, the body of the outer \<^verbatim>\<open>try\<close>, given what \<^verbatim>\<open>fetch\<close> did
  (\<open>Inl\<close>: it rejected): the invocations made, and the value thrown if the body threw.
\<close>

definition try_body :: "callbacks \<Rightarrow> thrown + response \<Rightarrow> event list \<times> thrown option" where
  "try_body cbs fetched =
     (case fetched of
        Inl e \<Rightarrow> ([], Some e)
      | Inr r \<Rightarrow>
          (case check_status r of
             Some e \<Rightarrow> ([], Some e)
           | None \<Rightarrow>
               (case body r of
                  None \<Rightarrow> ([], Some (Error no_stream_message))
                | Some reader \<Rightarrow>
                    (case read_loop cbs \<lparr>decoder = new_TextDecoder, buffer = [], trace = []\<rparr>
                            (chunks reader) (ending reader) of
                       (st, Some e) \<Rightarrow> (trace st, Some e)
                     | (st, None) \<Rightarrow> process_rest cbs (buffer st) (trace st)))))"

text \<open>
  Lines 95 to 165. \<^verbatim>\<open>getErrorMessage\<close> is imported from \<^verbatim>\<open>./request\<close> and is a
  parameter here. The result is the sequence of callback invocations.
\<close>

definition queryKnowledgeBaseStream ::
    "(thrown \<Rightarrow> jsstring) \<Rightarrow> callbacks \<Rightarrow> thrown + response \<Rightarrow> event list" where
  "queryKnowledgeBaseStream get_msg cbs fetched =
     (case try_body cbs fetched of
        (tr, Some e) \<Rightarrow> tr @ [OnError (get_msg e)]
      | (tr, None) \<Rightarrow> tr)"

text \<open>
  Modelled from the spec: \<^verbatim>\<open>getErrorMessage\<close> of \<^verbatim>\<open>./request\<close>, which is not among
  the sources. The spec has every error "normalized into a single Error-like value with
  a human-readable message", and expects the message of a thrown \<^verbatim>\<open>Error\<close> to reach
  \<^verbatim>\<open>onError\<close>; it gives no text for a thrown value that is not an \<^verbatim>\<open>Error\<close>, so that
  text is an argument.
\<close>

definition getErrorMessage :: "jsstring \<Rightarrow> thrown \<Rightarrow> jsstring" where
  "getErrorMessage fallback e = (case e of Error m \<Rightarrow> m | NotAnError _ \<Rightarrow> fallback)"

subsection \<open>Notions used to state the properties\<close>

text \<open>The payload a line carries, if it carries one.\<close>

definition payload_of :: "jsstring \<Rightarrow> jsstring option" where
  "payload_of line =
     (if startsWith line data_prefix \<and> trim (substring 5 line) \<noteq> []
      then Some (trim (substring 5 line)) else None)"

definition payloads :: "jsstring list \<Rightarrow> jsstring list" where
  "payloads lines = List.map_filter payload_of lines"

text \<open>Invoking \<^verbatim>\<open>onMessage\<close> on payloads in order, until an invocation throws.\<close>

fun deliver :: "callbacks \<Rightarrow> jsstring list \<Rightarrow> event list \<Rightarrow> event list \<times> thrown option" where
  "deliver cbs [] tr = (tr, None)"
| "deliver cbs (p # ps) tr =
     (case call_onMessage cbs p tr of
        (tr', Some e) \<Rightarrow> (tr', Some e)
      | (tr', None) \<Rightarrow> deliver cbs ps tr')"

fun message_of :: "event \<Rightarrow> jsstring option" where
  "message_of (OnMessage p) = Some p"
| "message_of _ = None"

definition messages :: "event list \<Rightarrow> jsstring list" where
  "messages tr = List.map_filter message_of tr"

fun is_OnComplete :: "event \<Rightarrow> bool" where
  "is_OnComplete OnComplete = True"
| "is_OnComplete _ = False"

fun is_OnError :: "event \<Rightarrow> bool" where
  "is_OnError (OnError _) = True"
| "is_OnError _ = False"

definition completions :: "event list \<Rightarrow> nat" where
  "completions tr = length (filter is_OnComplete tr)"

definition errors :: "event list \<Rightarrow> nat" where
  "errors tr = length (filter is_OnError tr)"

text \<open>The text a fresh decoder produces from all the bytes of a stream.\<close>

definition decoded_text :: "byte list \<Rightarrow> jsstring" where
  "decoded_text bytes = snd (decode new_TextDecoder bytes)"

text \<open>A successful response with a body that delivers the chunks and then ends.\<close>

definition streaming :: "byte list list \<Rightarrow> thrown option \<Rightarrow> thrown + response" where
  "streaming cs e =
     Inr \<lparr>status = 200, json_body = Inl (NotAnError 0),
          body = Some \<lparr>chunks = cs, ending = e\<rparr>\<rparr>"

text \<open>
  What the function does once the chunks are used up, with the residual buffer: a
  rejected read is thrown; on \<^verbatim>\<open>done\<close>, \<^verbatim>\<open>onComplete()\<close>, then lines 153 to 161.
\<close>

definition finish :: "callbacks \<Rightarrow> thrown option \<Rightarrow> jsstring \<Rightarrow> event list \<Rightarrow> event list \<times> thrown option" where
  "finish cbs end_of_stream buf tr =
     (case end_of_stream of
        Some e \<Rightarrow> (tr, Some e)
      | None \<Rightarrow>
          (case call_onComplete cbs tr of
             (tr', Some e) \<Rightarrow> (tr', Some e)
           | (tr', None) \<Rightarrow> process_rest cbs buf tr'))"

text \<open>
  The invocations described from the whole decoded text at once: the payloads of the
  complete lines in order, then the end of the stream with the last, unterminated line.
\<close>

definition at_once :: "callbacks \<Rightarrow> jsstring \<Rightarrow> thrown option \<Rightarrow> event list \<Rightarrow> event list \<times> thrown option" where
  "at_once cbs text end_of_stream tr =
     (let parts = split_on newline text
      in case deliver cbs (payloads (butlast parts)) tr of
           (tr', Some e) \<Rightarrow> (tr', Some e)
         | (tr', None) \<Rightarrow> finish cbs end_of_stream (last parts) tr')"

text \<open>The variables of the loop as lines 122 and 123 set them, with no invocation made.\<close>

definition initial_state :: loop_state where
  "initial_state = \<lparr>decoder = new_TextDecoder, buffer = [], trace = []\<rparr>"

section \<open>Auxiliary facts\<close>

declare decimal.simps [simp del]

subsection \<open>Splitting, trimming and decoding\<close>

lemma split_on_not_Nil [simp]: "split_on sep xs \<noteq> []"
  by (induction xs) (auto split: list.splits)

lemma split_on_append:
  "split_on sep (xs @ ys) = butlast (split_on sep xs) @ split_on sep (last (split_on sep xs) @ ys)"
proof (induction xs)
  case Nil
  show ?case by simp
next
  case (Cons c cs)
  show ?case
  proof (cases "c = sep")
    case True
    with Cons show ?thesis by simp
  next
    case False
    obtain p ps where sp: "split_on sep cs = p # ps"
      by (cases "split_on sep cs") auto
    show ?thesis
    proof (cases ps)
      case Nil
      with False sp Cons show ?thesis by simp
    next
      case (Cons q qs)
      with False sp Cons.IH show ?thesis by simp
    qed
  qed
qed

lemma split_on_pieces: "p \<in> set (split_on sep xs) \<Longrightarrow> sep \<notin> set p"
proof (induction xs arbitrary: p)
  case Nil
  then show ?case by simp
next
  case (Cons c cs)
  then show ?case
    by (cases "split_on sep cs") (auto split: if_splits)
qed

lemma last_split_on: "sep \<notin> set (last (split_on sep xs))"
  by (rule split_on_pieces [of _ sep xs]) simp

lemma butlast_split_on_append:
  "butlast (split_on sep (xs @ ys)) =
   butlast (split_on sep xs) @ butlast (split_on sep (last (split_on sep xs) @ ys))"
  by (subst split_on_append) (simp add: butlast_append)

lemma last_split_on_append:
  "last (split_on sep (xs @ ys)) = last (split_on sep (last (split_on sep xs) @ ys))"
  by (subst split_on_append) simp

lemma handler_bom_update:
  "handler (d\<lparr>bom_seen := x\<rparr>) b = (fst (handler d b)\<lparr>bom_seen := x\<rparr>, snd (handler d b))"
  by (simp add: handler_def lead_byte_def reset_def Let_def split: prod.splits)

lemma process_queue_bom_update:
  "process_queue (d\<lparr>bom_seen := x\<rparr>) bs =
   (fst (process_queue d bs)\<lparr>bom_seen := x\<rparr>, snd (process_queue d bs))"
proof (induction bs arbitrary: d)
  case Nil
  show ?case by simp
next
  case (Cons b bs)
  show ?case
    by (simp add: handler_bom_update Cons.IH split: prod.splits)
qed

lemma process_queue_append:
  "process_queue d (as @ bs) =
   (fst (process_queue (fst (process_queue d as)) bs),
    snd (process_queue d as) @ snd (process_queue (fst (process_queue d as)) bs))"
  by (induction as arbitrary: d) (simp_all split: prod.splits)

lemma serialize_append:
  "serialize seen (xs @ ys) =
   (fst (serialize (fst (serialize seen xs)) ys),
    snd (serialize seen xs) @ snd (serialize (fst (serialize seen xs)) ys))"
  by (induction seen xs rule: serialize.induct) (simp_all split: prod.splits)

lemma decode_append:
  "decode d (as @ bs) =
   (fst (decode (fst (decode d as)) bs), snd (decode d as) @ snd (decode (fst (decode d as)) bs))"
  by (simp add: decode_def process_queue_append serialize_append process_queue_bom_update
      split: prod.splits)


lemma split_on_no_sep: "sep \<notin> set xs \<Longrightarrow> split_on sep xs = [xs]"
  by (induction xs) auto

lemma pop_split_on:
  "pop (split_on sep xs) = (Some (last (split_on sep xs)), butlast (split_on sep xs))"
  by (simp add: pop_def)

lemma or_empty_Some [simp]: "or_empty (Some s) = s"
  by (simp add: or_empty_def)

lemma all_dropWhile:
  "(\<forall>x\<in>set (dropWhile P xs). P x) \<longleftrightarrow> (\<forall>x\<in>set xs. P x)"
  by (induction xs) auto

lemma trim_Nil_iff: "trim s = [] \<longleftrightarrow> (\<forall>c\<in>set s. is_whitespace c)"
  by (simp add: trim_def dropWhile_eq_Nil_conv all_dropWhile)

lemma length_data_prefix: "length data_prefix = 5"
  by (simp add: data_prefix_def)

lemma startsWith_data_prefix:
  "startsWith s data_prefix \<longleftrightarrow> (\<exists>rest. s = data_prefix @ rest)"
proof
  assume "startsWith s data_prefix"
  then have "take 5 s = data_prefix"
    by (simp add: startsWith_def length_data_prefix)
  then have "s = data_prefix @ drop 5 s"
    using append_take_drop_id [of 5 s] by simp
  then show "\<exists>rest. s = data_prefix @ rest" ..
next
  assume "\<exists>rest. s = data_prefix @ rest"
  then show "startsWith s data_prefix"
    by (auto simp: startsWith_def)
qed

lemma startsWith_trim: "startsWith s data_prefix \<Longrightarrow> trim s \<noteq> []"
proof -
  assume "startsWith s data_prefix"
  then obtain rest where "s = data_prefix @ rest"
    by (auto simp: startsWith_data_prefix)
  then have "0x64 \<in> set s"
    by (simp add: data_prefix_def)
  moreover have "\<not> is_whitespace 0x64"
    by (simp add: is_whitespace_def)
  ultimately show ?thesis
    by (auto simp: trim_Nil_iff)
qed

lemma process_line_payload:
  "process_line cbs line tr =
   (case payload_of line of None \<Rightarrow> (tr, None) | Some p \<Rightarrow> call_onMessage cbs p tr)"
  by (simp add: process_line_def payload_of_def Let_def)

lemma process_rest_payload:
  "process_rest cbs buf tr =
   (case payload_of buf of None \<Rightarrow> (tr, None) | Some p \<Rightarrow> call_onMessage cbs p tr)"
  using startsWith_trim [of buf]
  by (simp add: process_rest_def payload_of_def Let_def)

lemma for_lines_deliver: "for_lines cbs lines tr = deliver cbs (payloads lines) tr"
  by (induction lines arbitrary: tr)
     (auto simp: payloads_def map_filter_simps process_line_payload split: option.splits prod.splits)

lemma payloads_append: "payloads (xs @ ys) = payloads xs @ payloads ys"
  by (simp add: payloads_def map_filter_def)

lemma deliver_append:
  "deliver cbs (ps @ qs) tr =
   (case deliver cbs ps tr of (tr', Some e) \<Rightarrow> (tr', Some e) | (tr', None) \<Rightarrow> deliver cbs qs tr')"
  by (induction ps arbitrary: tr) (auto split: prod.splits option.splits)

lemma process_chunk_eq:
  "process_chunk cbs st v =
   (let parts = split_on newline (buffer st @ snd (decode (decoder st) v));
        r = deliver cbs (payloads (butlast parts)) (trace st)
    in (\<lparr>decoder = fst (decode (decoder st) v), buffer = last parts, trace = fst r\<rparr>, snd r))"
  by (simp add: process_chunk_def Let_def pop_split_on for_lines_deliver split: prod.splits)

lemma at_once_append:
  "at_once cbs (xs @ ys) e tr =
   (case deliver cbs (payloads (butlast (split_on newline xs))) tr of
      (tr', Some x) \<Rightarrow> (tr', Some x)
    | (tr', None) \<Rightarrow> at_once cbs (last (split_on newline xs) @ ys) e tr')"
  unfolding at_once_def Let_def
  by (simp add: butlast_split_on_append [of newline xs ys] last_split_on_append [of newline xs ys]
      payloads_append deliver_append split: prod.splits option.splits)

lemma at_once_no_newline:
  "newline \<notin> set buf \<Longrightarrow> at_once cbs buf e tr = finish cbs e buf tr"
  by (simp add: at_once_def split_on_no_sep payloads_def map_filter_simps)

lemma decode_Nil: "snd (decode d []) = []"
  by (simp add: decode_def)

lemma read_loop_at_once:
  "newline \<notin> set (buffer st) \<Longrightarrow>
   (case read_loop cbs st cs e of
      (st', Some x) \<Rightarrow> (trace st', Some x)
    | (st', None) \<Rightarrow> process_rest cbs (buffer st') (trace st')) =
   at_once cbs (buffer st @ snd (decode (decoder st) (concat cs))) e (trace st)"
proof (induction cs arbitrary: st)
  case Nil
  then show ?case
    by (simp add: at_once_no_newline decode_Nil finish_def split: option.splits prod.splits)
next
  case (Cons c cs)
  let ?parts = "split_on newline (buffer st @ snd (decode (decoder st) c))"
  let ?r = "deliver cbs (payloads (butlast ?parts)) (trace st)"
  let ?st1 = "\<lparr>decoder = fst (decode (decoder st) c), buffer = last ?parts, trace = fst ?r\<rparr>"
  let ?t2 = "snd (decode (decoder ?st1) (concat cs))"
  have pc: "process_chunk cbs st c = (?st1, snd ?r)"
    by (simp add: process_chunk_eq Let_def)
  have nl_free: "newline \<notin> set (buffer ?st1)"
    by (simp add: last_split_on)
  have "at_once cbs (buffer st @ snd (decode (decoder st) (concat (c # cs)))) e (trace st) =
        at_once cbs ((buffer st @ snd (decode (decoder st) c)) @ ?t2) e (trace st)"
    by (simp add: decode_append)
  also have "\<dots> = (case ?r of
                      (tr', Some x) \<Rightarrow> (tr', Some x)
                    | (tr', None) \<Rightarrow> at_once cbs (last ?parts @ ?t2) e tr')"
    by (rule at_once_append)
  finally have rhs: "at_once cbs (buffer st @ snd (decode (decoder st) (concat (c # cs)))) e (trace st) =
                     (case ?r of
                        (tr', Some x) \<Rightarrow> (tr', Some x)
                      | (tr', None) \<Rightarrow> at_once cbs (last ?parts @ ?t2) e tr')" .
  show ?case
  proof (cases "snd ?r")
    case None
    then have r: "?r = (fst ?r, None)"
      by (metis prod.collapse)
    have "(case read_loop cbs st (c # cs) e of
            (st', Some x) \<Rightarrow> (trace st', Some x)
          | (st', None) \<Rightarrow> process_rest cbs (buffer st') (trace st')) =
          at_once cbs (buffer ?st1 @ ?t2) e (trace ?st1)"
      using Cons.IH [OF nl_free] pc None by simp
    also have "\<dots> = at_once cbs (buffer st @ snd (decode (decoder st) (concat (c # cs)))) e (trace st)"
      unfolding rhs by (subst (2) r) simp
    finally show ?thesis .
  next
    case (Some x)
    then have r: "?r = (fst ?r, Some x)"
      by (metis prod.collapse)
    have "(case read_loop cbs st (c # cs) e of
            (st', Some x) \<Rightarrow> (trace st', Some x)
          | (st', None) \<Rightarrow> process_rest cbs (buffer st') (trace st')) = (fst ?r, Some x)"
      using pc Some by simp
    also have "\<dots> = at_once cbs (buffer st @ snd (decode (decoder st) (concat (c # cs)))) e (trace st)"
      unfolding rhs by (subst (2) r) simp
    finally show ?thesis .
  qed
qed


lemma check_status_ok: "check_status r = (if ok r then None else Some (Error (request_failed (status r))))"
  by (simp add: check_status_def split: unit.splits)

lemma try_body_streaming:
  assumes "ok r" and "body r = Some s"
  shows "try_body cbs (Inr r) = at_once cbs (decoded_text (concat (chunks s))) (ending s) []"
proof -
  let ?st = "\<lparr>decoder = new_TextDecoder, buffer = [], trace = []\<rparr>"
  have "newline \<notin> set (buffer ?st)"
    by simp
  from read_loop_at_once [OF this, of cbs "chunks s" "ending s"]
  show ?thesis
    using assms by (simp add: try_body_def check_status_ok decoded_text_def)
qed

lemma try_body_not_ok:
  "\<not> ok r \<Longrightarrow> try_body cbs (Inr r) = ([], Some (Error (request_failed (status r))))"
  by (simp add: try_body_def check_status_ok)

lemma ok_body_update: "ok (r\<lparr>body := b\<rparr>) = ok r"
  by (simp add: ok_def)

lemma chunking_irrelevant:
  "queryKnowledgeBaseStream g cbs (Inr (r\<lparr>body := Some \<lparr>chunks = cs, ending = e\<rparr>\<rparr>)) =
   queryKnowledgeBaseStream g cbs (Inr (r\<lparr>body := Some \<lparr>chunks = [concat cs], ending = e\<rparr>\<rparr>))"
proof (cases "ok r")
  case True
  have "try_body cbs (Inr (r\<lparr>body := Some \<lparr>chunks = cs, ending = e\<rparr>\<rparr>)) =
        at_once cbs (decoded_text (concat cs)) e []"
    using True try_body_streaming [of "r\<lparr>body := Some \<lparr>chunks = cs, ending = e\<rparr>\<rparr>"
        "\<lparr>chunks = cs, ending = e\<rparr>" cbs]
    by (simp add: ok_body_update)
  moreover have "try_body cbs (Inr (r\<lparr>body := Some \<lparr>chunks = [concat cs], ending = e\<rparr>\<rparr>)) =
        at_once cbs (decoded_text (concat cs)) e []"
    using True try_body_streaming [of "r\<lparr>body := Some \<lparr>chunks = [concat cs], ending = e\<rparr>\<rparr>"
        "\<lparr>chunks = [concat cs], ending = e\<rparr>" cbs]
    by (simp add: ok_body_update)
  ultimately show ?thesis
    by (simp add: queryKnowledgeBaseStream_def)
next
  case False
  then show ?thesis
    by (simp add: queryKnowledgeBaseStream_def try_body_not_ok ok_body_update)
qed

lemma process_chunk_buffer:
  "buffer (fst (process_chunk cbs st v)) =
   last (split_on newline (buffer st @ snd (decode (decoder st) v)))"
  by (simp add: process_chunk_eq Let_def)

lemma read_loop_buffer:
  "newline \<notin> set (buffer st) \<Longrightarrow> newline \<notin> set (buffer (fst (read_loop cbs st cs e)))"
proof (induction cs arbitrary: st)
  case Nil
  then show ?case
    by (simp split: option.splits prod.splits)
next
  case (Cons c cs)
  have nl_free: "newline \<notin> set (buffer (fst (process_chunk cbs st c)))"
    by (simp add: process_chunk_buffer last_split_on)
  show ?case
  proof (cases "process_chunk cbs st c")
    case (Pair st' thrown)
    with nl_free have "newline \<notin> set (buffer st')"
      by simp
    with Cons.IH [of st'] Pair show ?thesis
      by (cases thrown) simp_all
  qed
qed

subsection \<open>Callbacks that return normally\<close>

lemma deliver_returns:
  "returns_normally cbs \<Longrightarrow> deliver cbs ps tr = (tr @ map OnMessage ps, None)"
  by (induction ps arbitrary: tr) (simp_all add: returns_normally_def call_onMessage_def)

lemma finish_returns:
  "returns_normally cbs \<Longrightarrow>
   finish cbs None buf tr =
   (tr @ OnComplete # (case payload_of buf of None \<Rightarrow> [] | Some p \<Rightarrow> [OnMessage p]), None)"
  by (simp add: finish_def call_onComplete_def call_onMessage_def process_rest_payload
      returns_normally_def split: option.splits)

lemma at_once_returns:
  "returns_normally cbs \<Longrightarrow>
   at_once cbs text None [] =
   (map OnMessage (payloads (butlast (split_on newline text))) @
    OnComplete # (case payload_of (last (split_on newline text)) of
                    None \<Rightarrow> [] | Some p \<Rightarrow> [OnMessage p]), None)"
  by (simp add: at_once_def Let_def deliver_returns finish_returns)

lemma returning_returns: "returns_normally returning"
  by (simp add: returns_normally_def returning_def)

lemma ok_streaming: "ok \<lparr>status = 200, json_body = j, body = b\<rparr>"
  by (simp add: ok_def)

lemma try_body_streaming_response:
  "try_body cbs (streaming cs e) = at_once cbs (decoded_text (concat cs)) e []"
  using try_body_streaming [of "\<lparr>status = 200, json_body = Inl (NotAnError 0),
      body = Some \<lparr>chunks = cs, ending = e\<rparr>\<rparr>" "\<lparr>chunks = cs, ending = e\<rparr>" cbs]
  by (simp add: streaming_def ok_def)

subsection \<open>Evaluating the decoder and the string methods on given text\<close>

lemmas decode_eval =
  decoded_text_def decode_def new_TextDecoder_def utf8_ascii_def ascii_def handler_def
  lead_byte_def utf16_def reset_def replacement_def

lemmas string_eval =
  payload_of_def payloads_def map_filter_simps startsWith_def data_prefix_def substring_def
  trim_def is_whitespace_def ascii_def newline_def

subsection \<open>Counting the invocations\<close>

lemma messages_simps [simp]:
  "messages [] = []"
  "messages (OnMessage p # tr) = p # messages tr"
  "messages (OnComplete # tr) = messages tr"
  "messages (OnError m # tr) = messages tr"
  "messages (tr @ tr') = messages tr @ messages tr'"
  by (simp_all add: messages_def map_filter_def)

lemma completions_simps [simp]:
  "completions [] = 0"
  "completions (OnMessage p # tr) = completions tr"
  "completions (OnComplete # tr) = Suc (completions tr)"
  "completions (OnError m # tr) = completions tr"
  "completions (tr @ tr') = completions tr + completions tr'"
  by (simp_all add: completions_def)

lemma errors_simps [simp]:
  "errors [] = 0"
  "errors (OnMessage p # tr) = errors tr"
  "errors (OnComplete # tr) = errors tr"
  "errors (OnError m # tr) = Suc (errors tr)"
  "errors (tr @ tr') = errors tr + errors tr'"
  by (simp_all add: errors_def)

lemma deliver_counts:
  "completions (fst (deliver cbs ps tr)) = completions tr \<and>
   errors (fst (deliver cbs ps tr)) = errors tr"
  by (induction ps arbitrary: tr) (auto simp: call_onMessage_def split: option.splits)

lemma deliver_messages:
  "set (messages (fst (deliver cbs ps tr))) \<subseteq> set (messages tr) \<union> set ps"
proof (induction ps arbitrary: tr)
  case Nil
  show ?case by simp
next
  case (Cons p ps)
  show ?case
  proof (cases "onMessage cbs tr p")
    case None
    with Cons.IH [of "tr @ [OnMessage p]"] show ?thesis
      by (auto simp: call_onMessage_def)
  next
    case (Some e)
    then show ?thesis
      by (auto simp: call_onMessage_def)
  qed
qed

lemma process_rest_counts:
  "completions (fst (process_rest cbs buf tr)) = completions tr \<and>
   errors (fst (process_rest cbs buf tr)) = errors tr"
  by (simp add: process_rest_payload call_onMessage_def split: option.splits)

lemma process_rest_messages:
  "set (messages (fst (process_rest cbs buf tr))) \<subseteq> set (messages tr) \<union> set (payloads [buf])"
  by (auto simp: process_rest_payload call_onMessage_def payloads_def map_filter_simps
      split: option.splits)

lemma finish_counts:
  "completions (fst (finish cbs e buf tr)) \<le> Suc (completions tr) \<and>
   errors (fst (finish cbs e buf tr)) = errors tr"
  by (cases e; cases "onComplete cbs tr")
     (simp_all add: finish_def call_onComplete_def process_rest_counts)

lemma finish_messages:
  "set (messages (fst (finish cbs e buf tr))) \<subseteq> set (messages tr) \<union> set (payloads [buf])"
proof (cases e)
  case (Some x)
  then show ?thesis
    by (simp add: finish_def)
next
  case None
  show ?thesis
  proof (cases "onComplete cbs tr")
    case (Some x)
    with None show ?thesis
      by (simp add: finish_def call_onComplete_def)
  next
    case returned: None
    with None process_rest_messages [of cbs buf "tr @ [OnComplete]"] show ?thesis
      by (simp add: finish_def call_onComplete_def)
  qed
qed

lemma payloads_parts:
  assumes "xs \<noteq> []"
  shows "set (payloads (butlast xs)) \<union> set (payloads [last xs]) = set (payloads xs)"
proof -
  have "payloads (butlast xs @ [last xs]) = payloads (butlast xs) @ payloads [last xs]"
    by (rule payloads_append)
  with assms show ?thesis
    by simp
qed


lemma at_once_counts:
  "completions (fst (at_once cbs text e [])) \<le> 1 \<and> errors (fst (at_once cbs text e [])) = 0"
proof (cases "deliver cbs (payloads (butlast (split_on newline text))) []")
  case (Pair tr thrown)
  have tr: "completions tr = 0 \<and> errors tr = 0"
    using deliver_counts [of cbs "payloads (butlast (split_on newline text))" "[]"] Pair by simp
  show ?thesis
  proof (cases thrown)
    case None
    with Pair tr finish_counts [of cbs e "last (split_on newline text)" tr] show ?thesis
      by (simp add: at_once_def)
  next
    case (Some x)
    with Pair tr show ?thesis
      by (simp add: at_once_def)
  qed
qed

lemma at_once_messages:
  "set (messages (fst (at_once cbs text e []))) \<subseteq> set (payloads (split_on newline text))"
proof (cases "deliver cbs (payloads (butlast (split_on newline text))) []")
  case (Pair tr thrown)
  let ?parts = "split_on newline text"
  have all: "set (payloads (butlast ?parts)) \<union> set (payloads [last ?parts]) = set (payloads ?parts)"
    by (rule payloads_parts) simp
  have tr: "set (messages tr) \<subseteq> set (payloads (butlast ?parts))"
    using deliver_messages [of cbs "payloads (butlast ?parts)" "[]"] Pair by simp
  show ?thesis
  proof (cases thrown)
    case None
    with Pair have "fst (at_once cbs text e []) = fst (finish cbs e (last ?parts) tr)"
      by (simp add: at_once_def)
    with finish_messages [of cbs e "last ?parts" tr] tr all show ?thesis
      by auto
  next
    case (Some x)
    with Pair have "fst (at_once cbs text e []) = tr"
      by (simp add: at_once_def)
    with tr all show ?thesis
      by auto
  qed
qed

text \<open>
  Whatever \<^verbatim>\<open>fetch\<close> did: the body of the \<^verbatim>\<open>try\<close> invokes only \<^verbatim>\<open>onMessage\<close> and
  \<^verbatim>\<open>onComplete\<close>, the latter at most once, and only on a response with a body stream.
\<close>

lemma try_body_cases:
  "try_body cbs fetched = ([], snd (try_body cbs fetched)) \<and> snd (try_body cbs fetched) \<noteq> None
   \<or> (\<exists>r s. fetched = Inr r \<and> ok r \<and> body r = Some s \<and>
        try_body cbs fetched = at_once cbs (decoded_text (concat (chunks s))) (ending s) [])"
proof (cases fetched)
  case (Inl e)
  then show ?thesis
    by (simp add: try_body_def)
next
  case (Inr r)
  show ?thesis
  proof (cases "ok r")
    case False
    with Inr show ?thesis
      by (simp add: try_body_not_ok)
  next
    case True
    show ?thesis
    proof (cases "body r")
      case None
      with Inr True show ?thesis
        by (simp add: try_body_def check_status_ok)
    next
      case (Some s)
      with Inr True show ?thesis
        by (simp add: try_body_streaming)
    qed
  qed
qed

lemma try_body_counts:
  "completions (fst (try_body cbs fetched)) \<le> 1 \<and> errors (fst (try_body cbs fetched)) = 0"
  using try_body_cases [of cbs fetched] at_once_counts
  by (elim disjE exE conjE) (simp_all, metis fst_conv completions_simps(1) errors_simps(1) zero_le)

lemma query_trace:
  "queryKnowledgeBaseStream g cbs fetched =
   fst (try_body cbs fetched) @
   (case snd (try_body cbs fetched) of None \<Rightarrow> [] | Some e \<Rightarrow> [OnError (g e)])"
  by (simp add: queryKnowledgeBaseStream_def split: prod.splits option.splits)


lemma events_of_messages [simp]:
  "messages (map OnMessage ps) = ps"
  "completions (map OnMessage ps) = 0"
  "errors (map OnMessage ps) = 0"
  by (induction ps) simp_all

lemma at_once_returns_failed:
  "returns_normally cbs \<Longrightarrow>
   at_once cbs text (Some x) [] = (map OnMessage (payloads (butlast (split_on newline text))), Some x)"
  by (simp add: at_once_def Let_def deliver_returns finish_def)

lemma try_body_returns:
  assumes "returns_normally cbs"
  shows "completions (fst (try_body cbs fetched)) =
         (case snd (try_body cbs fetched) of None \<Rightarrow> 1 | Some e \<Rightarrow> 0)"
proof -
  from try_body_cases [of cbs fetched] show ?thesis
  proof (elim disjE exE conjE)
    assume "try_body cbs fetched = ([], snd (try_body cbs fetched))"
      and "snd (try_body cbs fetched) \<noteq> None"
    then show ?thesis
      by (cases "snd (try_body cbs fetched)") (simp, metis completions_simps(1) fst_conv option.simps(5))
  next
    fix r s
    assume eq: "try_body cbs fetched = at_once cbs (decoded_text (concat (chunks s))) (ending s) []"
    show ?thesis
      using assms
      by (cases "ending s")
         (simp_all add: eq at_once_returns at_once_returns_failed split: option.splits)
  qed
qed

lemma finish_completes:
  assumes "snd (finish cbs e buf tr) = None"
  shows "completions (fst (finish cbs e buf tr)) = Suc (completions tr)"
proof (cases e)
  case (Some x)
  with assms show ?thesis
    by (simp add: finish_def)
next
  case None
  show ?thesis
  proof (cases "onComplete cbs tr")
    case (Some x)
    with None assms show ?thesis
      by (simp add: finish_def call_onComplete_def)
  next
    case returned: None
    with None process_rest_counts [of cbs buf "tr @ [OnComplete]"] show ?thesis
      by (simp add: finish_def call_onComplete_def)
  qed
qed

lemma at_once_completes:
  assumes "snd (at_once cbs t e []) = None"
  shows "completions (fst (at_once cbs t e [])) = 1"
proof (cases "deliver cbs (payloads (butlast (split_on newline t))) []")
  case (Pair tr thrown)
  have tr: "completions tr = 0"
    using deliver_counts [of cbs "payloads (butlast (split_on newline t))" "[]"] Pair by simp
  show ?thesis
  proof (cases thrown)
    case None
    with Pair have eq: "at_once cbs t e [] = finish cbs e (last (split_on newline t)) tr"
      by (simp add: at_once_def)
    with assms have "snd (finish cbs e (last (split_on newline t)) tr) = None"
      by simp
    from finish_completes [OF this] tr eq show ?thesis
      by simp
  next
    case (Some x)
    with Pair assms show ?thesis
      by (simp add: at_once_def)
  qed
qed

lemma try_body_completes:
  assumes "snd (try_body cbs fetched) = None"
  shows "completions (fst (try_body cbs fetched)) = 1"
proof -
  from try_body_cases [of cbs fetched] show ?thesis
  proof (elim disjE exE conjE)
    assume "snd (try_body cbs fetched) \<noteq> None"
    with assms show ?thesis
      by simp
  next
    fix r s
    assume eq: "try_body cbs fetched = at_once cbs (decoded_text (concat (chunks s))) (ending s) []"
    with assms at_once_completes [of cbs "decoded_text (concat (chunks s))" "ending s"]
    show ?thesis
      by simp
  qed
qed

lemma query_returning:
  "queryKnowledgeBaseStream g returning (streaming cs None) =
   map OnMessage (payloads (butlast (split_on newline (decoded_text (concat cs))))) @
   OnComplete # (case payload_of (last (split_on newline (decoded_text (concat cs)))) of
                   None \<Rightarrow> [] | Some p \<Rightarrow> [OnMessage p])"
  by (simp add: queryKnowledgeBaseStream_def try_body_streaming_response at_once_returns
      returning_returns)

subsection \<open>Lines without a payload\<close>

lemma payloads_Nil_iff: "payloads lines = [] \<longleftrightarrow> (\<forall>line\<in>set lines. payload_of line = None)"
  by (induction lines) (auto simp: payloads_def map_filter_simps split: option.splits)

lemma payload_of_not_data: "\<not> startsWith line data_prefix \<Longrightarrow> payload_of line = None"
  by (simp add: payload_of_def)

lemma decimal_500: "decimal 500 = ascii ''500''"
  by (simp add: decimal.simps ascii_def)

lemma not_data_prefix:
  "take 5 line \<noteq> data_prefix \<Longrightarrow> \<not> startsWith line data_prefix"
  by (simp add: startsWith_def length_data_prefix)

lemma whitespace_not_data_prefix:
  "is_whitespace c \<Longrightarrow> \<not> startsWith (c # rest) data_prefix"
  by (auto simp: startsWith_def data_prefix_def is_whitespace_def)

lemma process_line_not_data:
  "\<not> startsWith line data_prefix \<Longrightarrow> process_line cbs line tr = (tr, None)"
  by (simp add: process_line_def)

lemma process_rest_not_data:
  "\<not> startsWith line data_prefix \<Longrightarrow> process_rest cbs line tr = (tr, None)"
  by (simp add: process_rest_def)

subsection \<open>What a payload looks like\<close>

lemma set_trim: "set (trim s) \<subseteq> set s"
  by (auto simp: trim_def dest!: set_dropWhileD)

lemma last_dropWhile: "dropWhile P xs \<noteq> [] \<Longrightarrow> last (dropWhile P xs) = last xs"
  by (induction xs) (auto split: if_splits)

lemma trim_last: "trim s \<noteq> [] \<Longrightarrow> \<not> is_whitespace (last (trim s))"
proof -
  assume "trim s \<noteq> []"
  then have ne: "dropWhile is_whitespace (rev (dropWhile is_whitespace s)) \<noteq> []"
    by (simp add: trim_def)
  then have "\<not> is_whitespace (hd (dropWhile is_whitespace (rev (dropWhile is_whitespace s))))"
    by (rule hd_dropWhile)
  with ne show ?thesis
    by (simp add: trim_def last_rev)
qed

lemma trim_hd: "trim s \<noteq> [] \<Longrightarrow> \<not> is_whitespace (hd (trim s))"
proof -
  let ?t = "dropWhile is_whitespace s"
  assume "trim s \<noteq> []"
  then have ne: "dropWhile is_whitespace (rev ?t) \<noteq> []"
    by (simp add: trim_def)
  have t: "?t \<noteq> []"
  proof
    assume "?t = []"
    with ne show False by simp
  qed
  have "hd (trim s) = last (dropWhile is_whitespace (rev ?t))"
    using ne by (simp add: trim_def hd_rev)
  also have "\<dots> = last (rev ?t)"
    using ne by (rule last_dropWhile)
  also have "\<dots> = hd ?t"
    using t by (simp add: last_rev)
  finally show ?thesis
    using t hd_dropWhile [of is_whitespace s] by simp
qed

lemma payloads_origin:
  "p \<in> set (payloads lines) \<Longrightarrow> \<exists>line\<in>set lines. payload_of line = Some p"
  by (induction lines) (auto simp: payloads_def map_filter_simps split: option.splits)

lemma payload_shape:
  assumes "p \<in> set (payloads (split_on newline text))"
  shows "p \<noteq> [] \<and> newline \<notin> set p \<and> \<not> is_whitespace (hd p) \<and> \<not> is_whitespace (last p)
         \<and> (\<exists>line. newline \<notin> set line \<and> startsWith line data_prefix
               \<and> p = trim (substring 5 line))"
proof -
  from assms obtain line where line: "line \<in> set (split_on newline text)"
    and p: "payload_of line = Some p"
    using payloads_origin by blast
  from line have nl: "newline \<notin> set line"
    by (rule split_on_pieces)
  from p have starts: "startsWith line data_prefix" and eq: "p = trim (substring 5 line)"
    and ne: "p \<noteq> []"
    by (auto simp: payload_of_def split: if_splits)
  have "set p \<subseteq> set line"
    unfolding eq substring_def using set_trim [of "drop 5 line"] set_drop_subset [of 5 line]
    by blast
  with nl have "newline \<notin> set p"
    by blast
  moreover have "\<not> is_whitespace (hd p)" and "\<not> is_whitespace (last p)"
    using ne unfolding eq by (simp_all add: trim_hd trim_last)
  ultimately show ?thesis
    using ne nl starts eq by blast
qed

lemma try_body_messages:
  assumes "p \<in> set (messages (fst (try_body cbs fetched)))"
  shows "\<exists>t. p \<in> set (payloads (split_on newline t))"
proof -
  from try_body_cases [of cbs fetched] show ?thesis
  proof (elim disjE exE conjE)
    assume "try_body cbs fetched = ([], snd (try_body cbs fetched))"
    then have "fst (try_body cbs fetched) = []"
      by (metis fst_conv)
    with assms show ?thesis
      by simp
  next
    fix r s
    assume "try_body cbs fetched = at_once cbs (decoded_text (concat (chunks s))) (ending s) []"
    with assms at_once_messages [of cbs "decoded_text (concat (chunks s))" "ending s"]
    show ?thesis
      by auto
  qed
qed

lemma messages_query:
  "messages (queryKnowledgeBaseStream g cbs fetched) = messages (fst (try_body cbs fetched))"
  by (simp add: query_trace split: option.splits)

section \<open>The properties\<close>

text \<open>
  C1. The specification has the residual buffer dispatched first and \<^verbatim>\<open>onComplete\<close>
  called after it. The function does it the other way round. For a stream that ends
  cleanly and whose last, unterminated line carries the payload \<open>p\<close>, with callbacks
  that return normally, the invocations are: \<^verbatim>\<open>onMessage\<close> for the payloads of the
  complete lines, then \<^verbatim>\<open>onComplete\<close> (line 129), and only then \<^verbatim>\<open>onMessage(p)\<close>
  for the residual buffer (line 158). \<^verbatim>\<open>onComplete\<close> is called once, but before the
  last message.
\<close>

theorem residual_line_dispatched_after_onComplete:
  assumes "returns_normally cbs"
    and "ok r" and "body r = Some s" and "ending s = None"
    and "payload_of (last (split_on newline (decoded_text (concat (chunks s))))) = Some p"
  shows "queryKnowledgeBaseStream g cbs (Inr r) =
         map OnMessage (payloads (butlast (split_on newline (decoded_text (concat (chunks s))))))
         @ [OnComplete, OnMessage p]"
  using assms
  by (simp add: queryKnowledgeBaseStream_def try_body_streaming at_once_returns)

theorem residual_line_dispatched_after_onComplete_witness:
  "queryKnowledgeBaseStream (getErrorMessage []) returning
     (streaming [utf8_ascii ''data:payload''] None) =
   [OnComplete, OnMessage (ascii ''payload'')]"
proof -
  let ?s = "\<lparr>chunks = [utf8_ascii ''data:payload''], ending = None\<rparr>"
  let ?r = "\<lparr>status = 200, json_body = Inl (NotAnError 0), body = Some ?s\<rparr>"
  have decoded: "decoded_text (concat (chunks ?s)) = ascii ''data:payload''"
    by (simp add: decode_eval)
  have last_line: "payload_of (last (split_on newline (decoded_text (concat (chunks ?s))))) =
                   Some (ascii ''payload'')"
    unfolding decoded by (simp add: string_eval)
  have complete_lines: "payloads (butlast (split_on newline (decoded_text (concat (chunks ?s))))) = []"
    unfolding decoded by (simp add: string_eval)
  from residual_line_dispatched_after_onComplete [of returning ?r ?s "ascii ''payload''"
      "getErrorMessage []",
      OF returning_returns ok_streaming _ _ last_line]
  show ?thesis
    unfolding complete_lines by (simp add: streaming_def)
qed

text \<open>
  C2. The specification has \<^verbatim>\<open>onError\<close> carry the message field of a JSON error
  body. The function never does: whatever the body of a response with a status outside
  200 to 299 is, the only invocation is \<^verbatim>\<open>onError\<close> with the error made from the
  status in line 114, because the \<^verbatim>\<open>Error\<close> thrown in line 109 with the message of the
  body is caught by the \<^verbatim>\<open>catch\<close> of line 111 and dropped. That \<^verbatim>\<open>onError\<close> is the
  only invocation is as specified.
\<close>

theorem error_body_message_is_dropped:
  assumes "\<not> ok r"
  shows "queryKnowledgeBaseStream g cbs (Inr r) = [OnError (g (Error (request_failed (status r))))]"
  using assms by (simp add: queryKnowledgeBaseStream_def try_body_not_ok)

theorem error_body_message_is_dropped_witness:
  "parse_error_response
     \<lparr>status = 500, json_body = Inr (JObj [(ascii ''message'', JStr (ascii ''quota exceeded''))]),
      body = None\<rparr> = Inl (Error (ascii ''quota exceeded''))
   \<and> queryKnowledgeBaseStream (getErrorMessage []) returning
       (Inr \<lparr>status = 500,
             json_body = Inr (JObj [(ascii ''message'', JStr (ascii ''quota exceeded''))]),
             body = None\<rparr>) =
     [OnError ([0x8BF7, 0x6C42, 0x5931, 0x8D25] @ ascii '' (500)'')]
   \<and> [0x8BF7, 0x6C42, 0x5931, 0x8D25] @ ascii '' (500)'' \<noteq> ascii ''quota exceeded''"
proof -
  let ?r = "\<lparr>status = 500,
             json_body = Inr (JObj [(ascii ''message'', JStr (ascii ''quota exceeded''))]),
             body = None\<rparr>"
  have "\<not> ok ?r"
    by (simp add: ok_def)
  from error_body_message_is_dropped [OF this, of "getErrorMessage []" returning]
  show ?thesis
    by (simp add: parse_error_response_def message_key_def ascii_def getErrorMessage_def
        request_failed_def decimal.simps)
qed

text \<open>
  C3. However the bytes of a stream are cut into chunks, in the middle of a UTF-8
  sequence, of a line or of the \<^verbatim>\<open>data:\<close> prefix, the payloads passed to
  \<^verbatim>\<open>onMessage\<close> are the same, in the same order, as when all the bytes arrive as one
  chunk. The response, the way the stream ends, the callbacks and
  \<^verbatim>\<open>getErrorMessage\<close> are arbitrary.
\<close>

theorem chunk_boundaries_irrelevant:
  "messages (queryKnowledgeBaseStream g cbs (Inr (r\<lparr>body := Some \<lparr>chunks = cs, ending = e\<rparr>\<rparr>))) =
   messages (queryKnowledgeBaseStream g cbs (Inr (r\<lparr>body := Some \<lparr>chunks = [concat cs], ending = e\<rparr>\<rparr>)))"
  by (rule arg_cong [OF chunking_irrelevant])

text \<open>
  The line \<^verbatim>\<open>data: \<close> followed by U+4E2D, cut inside the prefix and inside the three
  bytes of the character.
\<close>

theorem chunk_boundaries_irrelevant_witness:
  "messages (queryKnowledgeBaseStream (getErrorMessage []) returning
     (streaming [utf8_ascii ''da'', utf8_ascii ''ta: '' @ [0xE4, 0xB8], [0xAD, 0x0A]] None)) =
   [[0x4E2D]]"
proof -
  let ?r = "\<lparr>status = 200, json_body = Inl (NotAnError 0), body = None\<rparr>"
  let ?cs = "[utf8_ascii ''da'', utf8_ascii ''ta: '' @ [0xE4, 0xB8], [0xAD, 0x0A]]"
  have "messages (queryKnowledgeBaseStream (getErrorMessage []) returning (streaming [concat ?cs] None)) =
        [[0x4E2D]]"
    by (simp add: query_returning decode_eval string_eval)
  with chunk_boundaries_irrelevant [where g = "getErrorMessage []" and cbs = returning
      and r = ?r and cs = ?cs and e = None]
  show ?thesis
    by (simp add: streaming_def)
qed




text \<open>
  C5. One complete line: \<^verbatim>\<open>onMessage\<close> is invoked, with the trimmed rest of the line
  after \<^verbatim>\<open>data:\<close>, exactly when the line starts with \<^verbatim>\<open>data:\<close> and that trimmed rest
  is not empty; the invocation is made at once, before the next line is looked at, and
  it is the only thing the line causes. The complete lines of a chunk: the trace
  grows by the invocations for their payloads, in the order of the lines, up to the
  first invocation that throws; all of them when the callbacks return normally.
\<close>

theorem complete_lines_dispatched_in_order:
  "process_line cbs line tr =
     (if startsWith line data_prefix \<and> trim (substring 5 line) \<noteq> []
      then (tr @ [OnMessage (trim (substring 5 line))], onMessage cbs tr (trim (substring 5 line)))
      else (tr, None))
   \<and> for_lines cbs (line # rest) tr =
       (case process_line cbs line tr of
          (tr', Some e) \<Rightarrow> (tr', Some e)
        | (tr', None) \<Rightarrow> for_lines cbs rest tr')
   \<and> trace (fst (process_chunk cbs st v)) =
       fst (deliver cbs
             (payloads (butlast (split_on newline (buffer st @ snd (decode (decoder st) v)))))
             (trace st))
   \<and> (returns_normally cbs \<longrightarrow>
        trace (fst (process_chunk cbs st v)) =
        trace st @ map OnMessage
          (payloads (butlast (split_on newline (buffer st @ snd (decode (decoder st) v))))))"
  by (simp add: process_line_def call_onMessage_def Let_def process_chunk_eq deliver_returns)

theorem complete_lines_dispatched_in_order_witness:
  "returns_normally returning
   \<and> trace (fst (process_chunk returning initial_state (utf8_ascii ''data:   '' @ [0x0A]))) = []
   \<and> trace (fst (process_chunk returning initial_state
        (utf8_ascii ''data: one'' @ [0x0A] @ utf8_ascii ''id: 7'' @ [0x0A]
         @ utf8_ascii ''data:two '' @ [0x0A] @ utf8_ascii ''data: thr''))) =
      [OnMessage (ascii ''one''), OnMessage (ascii ''two'')]"
proof -
  have blank: "snd (decode (decoder initial_state) (utf8_ascii ''data:   '' @ [0x0A])) =
               ascii ''data:   '' @ [0x0A]"
    by (simp add: initial_state_def decode_eval)
  have three: "snd (decode (decoder initial_state)
        (utf8_ascii ''data: one'' @ [0x0A] @ utf8_ascii ''id: 7'' @ [0x0A]
         @ utf8_ascii ''data:two '' @ [0x0A] @ utf8_ascii ''data: thr'')) =
        ascii ''data: one'' @ [0x0A] @ ascii ''id: 7'' @ [0x0A]
         @ ascii ''data:two '' @ [0x0A] @ ascii ''data: thr''"
    by (simp add: initial_state_def decode_eval)
  have empty: "buffer initial_state = []" "trace initial_state = []"
    by (simp_all add: initial_state_def)
  from complete_lines_dispatched_in_order [of returning "[]" "[]" "[]" initial_state
      "utf8_ascii ''data:   '' @ [0x0A]"] returning_returns
  have "trace (fst (process_chunk returning initial_state (utf8_ascii ''data:   '' @ [0x0A]))) =
        trace initial_state @ map OnMessage (payloads (butlast (split_on newline
          (buffer initial_state @
           snd (decode (decoder initial_state) (utf8_ascii ''data:   '' @ [0x0A]))))))"
    by blast
  then have first:
    "trace (fst (process_chunk returning initial_state (utf8_ascii ''data:   '' @ [0x0A]))) = []"
    unfolding blank empty by (simp add: string_eval)
  from complete_lines_dispatched_in_order [of returning "[]" "[]" "[]" initial_state
      "utf8_ascii ''data: one'' @ [0x0A] @ utf8_ascii ''id: 7'' @ [0x0A]
         @ utf8_ascii ''data:two '' @ [0x0A] @ utf8_ascii ''data: thr''"] returning_returns
  have "trace (fst (process_chunk returning initial_state
        (utf8_ascii ''data: one'' @ [0x0A] @ utf8_ascii ''id: 7'' @ [0x0A]
         @ utf8_ascii ''data:two '' @ [0x0A] @ utf8_ascii ''data: thr''))) =
        trace initial_state @ map OnMessage (payloads (butlast (split_on newline
          (buffer initial_state @
           snd (decode (decoder initial_state)
             (utf8_ascii ''data: one'' @ [0x0A] @ utf8_ascii ''id: 7'' @ [0x0A]
              @ utf8_ascii ''data:two '' @ [0x0A] @ utf8_ascii ''data: thr''))))))"
    by blast
  then have second: "trace (fst (process_chunk returning initial_state
        (utf8_ascii ''data: one'' @ [0x0A] @ utf8_ascii ''id: 7'' @ [0x0A]
         @ utf8_ascii ''data:two '' @ [0x0A] @ utf8_ascii ''data: thr''))) =
      [OnMessage (ascii ''one''), OnMessage (ascii ''two'')]"
    unfolding three empty by (simp add: string_eval)
  from first second returning_returns show ?thesis
    by simp
qed

text \<open>
  C6. A stream that ends cleanly and none of whose lines, complete or residual, starts
  with \<^verbatim>\<open>data:\<close> produces no \<^verbatim>\<open>onMessage\<close> call and exactly one \<^verbatim>\<open>onComplete\<close>
  call, whatever the callbacks do. The lines are those of the text the decoder produces
  from the bytes of the stream.
\<close>

theorem only_non_data_lines:
  assumes "ok r" and "body r = Some s" and "ending s = None"
    and "\<forall>line\<in>set (split_on newline (decoded_text (concat (chunks s)))).
           \<not> startsWith line data_prefix"
  shows "messages (queryKnowledgeBaseStream g cbs (Inr r)) = []
         \<and> completions (queryKnowledgeBaseStream g cbs (Inr r)) = 1"
proof -
  let ?parts = "split_on newline (decoded_text (concat (chunks s)))"
  have none: "\<forall>line\<in>set ?parts. payload_of line = None"
    using assms(4) by (simp add: payload_of_not_data)
  then have "\<forall>line\<in>set (butlast ?parts). payload_of line = None"
    by (meson in_set_butlastD)
  then have complete_lines: "payloads (butlast ?parts) = []"
    by (simp add: payloads_Nil_iff)
  have "last ?parts \<in> set ?parts"
    by simp
  with none have residual: "payload_of (last ?parts) = None"
    by blast
  have "try_body cbs (Inr r) = ([OnComplete], onComplete cbs [])"
    using assms(1-3) complete_lines residual
    by (simp add: try_body_streaming at_once_def finish_def call_onComplete_def
        process_rest_payload split: option.splits)
  then show ?thesis
    by (simp add: query_trace split: option.splits)
qed

theorem only_non_data_lines_witness:
  "messages (queryKnowledgeBaseStream (getErrorMessage []) returning
     (streaming [utf8_ascii '': ping'' @ [0x0A] @ utf8_ascii ''event: done'' @ [0x0A, 0x0A]
                 @ utf8_ascii ''  data: x''] None)) = []
   \<and> completions (queryKnowledgeBaseStream (getErrorMessage []) returning
     (streaming [utf8_ascii '': ping'' @ [0x0A] @ utf8_ascii ''event: done'' @ [0x0A, 0x0A]
                 @ utf8_ascii ''  data: x''] None)) = 1"
proof -
  let ?s = "\<lparr>chunks = [utf8_ascii '': ping'' @ [0x0A] @ utf8_ascii ''event: done'' @ [0x0A, 0x0A]
                 @ utf8_ascii ''  data: x''], ending = None\<rparr>"
  let ?r = "\<lparr>status = 200, json_body = Inl (NotAnError 0), body = Some ?s\<rparr>"
  have decoded: "decoded_text (concat (chunks ?s)) =
      ascii '': ping'' @ [0x0A] @ ascii ''event: done'' @ [0x0A, 0x0A] @ ascii ''  data: x''"
    by (simp add: decode_eval)
  have lines: "\<forall>line\<in>set (split_on newline (decoded_text (concat (chunks ?s)))).
                 \<not> startsWith line data_prefix"
    unfolding decoded by (simp add: string_eval)
  from only_non_data_lines [of ?r ?s "getErrorMessage []" returning, OF ok_streaming _ _ lines]
  show ?thesis
    by (simp add: streaming_def)
qed

text \<open>
  C7. After a chunk has been processed the buffer holds no newline: it is the last
  piece of the split of the old buffer followed by the decoded chunk, and this holds
  for the buffer the loop ends with, after any number of chunks.
\<close>

theorem buffer_holds_one_partial_line:
  "buffer (fst (process_chunk cbs st v)) =
     last (split_on newline (buffer st @ snd (decode (decoder st) v)))
   \<and> newline \<notin> set (buffer (fst (process_chunk cbs st v)))
   \<and> newline \<notin> set (buffer (fst (read_loop cbs
         \<lparr>decoder = new_TextDecoder, buffer = [], trace = []\<rparr> cs e)))"
  by (simp add: process_chunk_buffer last_split_on read_loop_buffer)

text \<open>
  C8. A response with a success status and no body stream: the only invocation is
  \<^verbatim>\<open>onError\<close>, with the error of line 119; there is no stream, so nothing is read.
  A response with another status whose body cannot be parsed
  (\<^verbatim>\<open>response.json()\<close> rejects): the only invocation is \<^verbatim>\<open>onError\<close>, whatever body
  stream the response has, and the message of the error thrown in line 114 holds the
  decimal digits of the status; with \<^verbatim>\<open>getErrorMessage\<close> as modelled from the spec that
  message is the one \<^verbatim>\<open>onError\<close> receives.
\<close>

theorem missing_stream_and_status_errors:
  "(ok r \<and> body r = None \<longrightarrow>
      queryKnowledgeBaseStream g cbs (Inr r) = [OnError (g (Error no_stream_message))])
   \<and> (\<not> ok r \<and> json_body r = Inl e \<longrightarrow>
      queryKnowledgeBaseStream g cbs (Inr r) = [OnError (g (Error (request_failed (status r))))]
      \<and> queryKnowledgeBaseStream g cbs (Inr (r\<lparr>body := b\<rparr>)) = queryKnowledgeBaseStream g cbs (Inr r)
      \<and> queryKnowledgeBaseStream (getErrorMessage fallback) cbs (Inr r) =
          [OnError (request_failed (status r))]
      \<and> (\<exists>before after. request_failed (status r) = before @ decimal (status r) @ after))"
proof (intro conjI impI)
  assume "ok r \<and> body r = None"
  then show "queryKnowledgeBaseStream g cbs (Inr r) = [OnError (g (Error no_stream_message))]"
    by (simp add: queryKnowledgeBaseStream_def try_body_def check_status_ok)
next
  assume "\<not> ok r \<and> json_body r = Inl e"
  then show "queryKnowledgeBaseStream g cbs (Inr r) = [OnError (g (Error (request_failed (status r))))]"
    by (simp add: queryKnowledgeBaseStream_def try_body_not_ok)
next
  assume "\<not> ok r \<and> json_body r = Inl e"
  then show "queryKnowledgeBaseStream g cbs (Inr (r\<lparr>body := b\<rparr>)) = queryKnowledgeBaseStream g cbs (Inr r)"
    by (simp add: queryKnowledgeBaseStream_def try_body_not_ok ok_body_update)
next
  assume "\<not> ok r \<and> json_body r = Inl e"
  then show "queryKnowledgeBaseStream (getErrorMessage fallback) cbs (Inr r) =
          [OnError (request_failed (status r))]"
    by (simp add: queryKnowledgeBaseStream_def try_body_not_ok getErrorMessage_def)
next
  show "\<exists>before after. request_failed (status r) = before @ decimal (status r) @ after"
    unfolding request_failed_def by blast
qed

theorem missing_stream_and_status_errors_witness:
  "queryKnowledgeBaseStream (getErrorMessage []) returning
     (Inr \<lparr>status = 200, json_body = Inl (Error []), body = None\<rparr>) =
     [OnError no_stream_message]
   \<and> queryKnowledgeBaseStream (getErrorMessage []) returning
     (Inr \<lparr>status = 500, json_body = Inl (Error (ascii ''Unexpected token <'')), body = None\<rparr>) =
     [OnError ([0x8BF7, 0x6C42, 0x5931, 0x8D25] @ ascii '' ('' @ ascii ''500'' @ ascii '')'')]"
proof -
  let ?r1 = "\<lparr>status = 200, json_body = Inl (Error []), body = None\<rparr>"
  let ?r2 = "\<lparr>status = 500, json_body = Inl (Error (ascii ''Unexpected token <'')), body = None\<rparr>"
  have h1: "ok ?r1 \<and> body ?r1 = None"
    by (simp add: ok_def)
  have h2: "\<not> ok ?r2 \<and> json_body ?r2 = Inl (Error (ascii ''Unexpected token <''))"
    by (simp add: ok_def)
  from missing_stream_and_status_errors [where r = ?r1 and g = "getErrorMessage []"
      and cbs = returning] h1
  have first: "queryKnowledgeBaseStream (getErrorMessage []) returning (Inr ?r1) =
               [OnError no_stream_message]"
    by (simp add: getErrorMessage_def)
  from missing_stream_and_status_errors [where r = ?r2 and cbs = returning
      and e = "Error (ascii ''Unexpected token <'')" and fallback = "[]"] h2
  have "queryKnowledgeBaseStream (getErrorMessage []) returning (Inr ?r2) =
        [OnError (request_failed (status ?r2))]"
    by blast
  then have second: "queryKnowledgeBaseStream (getErrorMessage []) returning (Inr ?r2) =
     [OnError ([0x8BF7, 0x6C42, 0x5931, 0x8D25] @ ascii '' ('' @ ascii ''500'' @ ascii '')'')]"
    by (simp add: request_failed_def decimal_500 ascii_def)
  from first second show ?thesis
    by simp
qed

text \<open>
  C9. The test for \<^verbatim>\<open>data:\<close> is made on the line as it is, not on the trimmed line,
  and it is exact: a line that begins with a white space character, or whose first five
  characters are not \<^verbatim>\<open>data:\<close> (another case of the letters included), causes no
  invocation, neither as a complete line nor as the residual buffer, where the trimmed
  buffer is only tested for being empty.
\<close>

theorem data_prefix_match_is_exact:
  "(is_whitespace c \<longrightarrow>
      process_line cbs (c # rest) tr = (tr, None) \<and> process_rest cbs (c # rest) tr = (tr, None))
   \<and> (take 5 line \<noteq> data_prefix \<longrightarrow>
      process_line cbs line tr = (tr, None) \<and> process_rest cbs line tr = (tr, None))"
  by (simp add: whitespace_not_data_prefix not_data_prefix process_line_not_data
      process_rest_not_data)

theorem data_prefix_match_is_exact_witness:
  "is_whitespace 0x20
   \<and> process_line returning (ascii ''  data: x'') [] = ([], None)
   \<and> process_rest returning (ascii ''  data: x'') [] = ([], None)
   \<and> startsWith (trim (ascii ''  data: x'')) data_prefix
   \<and> take 5 (ascii ''Data: x'') \<noteq> data_prefix
   \<and> process_line returning (ascii ''Data: x'') [] = ([], None)
   \<and> process_rest returning (ascii ''Data: x'') [] = ([], None)
   \<and> queryKnowledgeBaseStream (getErrorMessage []) returning
        (streaming [utf8_ascii ''  data: x'' @ [0x0A] @ utf8_ascii ''Data: y'' @ [0x0A]
                    @ utf8_ascii '' data: z''] None) = [OnComplete]"
proof -
  have ws: "is_whitespace 0x20"
    by (simp add: is_whitespace_def)
  have other: "take 5 (ascii ''Data: x'') \<noteq> data_prefix"
    by (simp add: string_eval)
  have shape: "ascii ''  data: x'' = 0x20 # ascii '' data: x''"
    by (simp add: ascii_def)
  from data_prefix_match_is_exact [of "0x20" returning "ascii '' data: x''" "[]" "ascii ''Data: x''"]
    ws other
  have lines: "process_line returning (ascii ''  data: x'') [] = ([], None)"
    "process_rest returning (ascii ''  data: x'') [] = ([], None)"
    "process_line returning (ascii ''Data: x'') [] = ([], None)"
    "process_rest returning (ascii ''Data: x'') [] = ([], None)"
    unfolding shape by simp_all
  have trimmed: "startsWith (trim (ascii ''  data: x'')) data_prefix"
    by (simp add: string_eval)
  have whole: "queryKnowledgeBaseStream (getErrorMessage []) returning
        (streaming [utf8_ascii ''  data: x'' @ [0x0A] @ utf8_ascii ''Data: y'' @ [0x0A]
                    @ utf8_ascii '' data: z''] None) = [OnComplete]"
    by (simp add: query_returning decode_eval string_eval)
  from ws other lines trimmed whole show ?thesis
    by simp
qed

text \<open>
  C10. Every string passed to \<^verbatim>\<open>onMessage\<close> is non-empty, holds no newline, and
  neither begins nor ends with a white space character; it is the trimmed rest, after
  the five characters of \<^verbatim>\<open>data:\<close>, of a single line. This holds for every outcome of
  \<^verbatim>\<open>fetch\<close>, every stream and all callbacks.
\<close>

theorem payloads_are_trimmed_lines:
  "\<forall>p\<in>set (messages (queryKnowledgeBaseStream g cbs fetched)).
     p \<noteq> [] \<and> newline \<notin> set p \<and> \<not> is_whitespace (hd p) \<and> \<not> is_whitespace (last p)
     \<and> (\<exists>line. newline \<notin> set line \<and> startsWith line data_prefix
           \<and> p = trim (substring 5 line))"
proof
  fix p
  assume "p \<in> set (messages (queryKnowledgeBaseStream g cbs fetched))"
  then obtain t where "p \<in> set (payloads (split_on newline t))"
    using try_body_messages [of p cbs fetched] by (auto simp: messages_query)
  then show "p \<noteq> [] \<and> newline \<notin> set p \<and> \<not> is_whitespace (hd p) \<and> \<not> is_whitespace (last p)
     \<and> (\<exists>line. newline \<notin> set line \<and> startsWith line data_prefix
           \<and> p = trim (substring 5 line))"
    by (rule payload_shape)
qed

theorem payloads_are_trimmed_lines_witness:
  "messages (queryKnowledgeBaseStream (getErrorMessage []) returning
     (streaming [utf8_ascii ''data: hel'',
                 utf8_ascii ''lo '' @ [0x0A] @ utf8_ascii ''data:   '' @ [0x0A] @ utf8_ascii ''data:world'']
        None)) = [ascii ''hello'', ascii ''world'']
   \<and> ascii ''hello'' \<noteq> [] \<and> newline \<notin> set (ascii ''hello'')
   \<and> \<not> is_whitespace (hd (ascii ''hello'')) \<and> \<not> is_whitespace (last (ascii ''hello''))"
proof -
  let ?fetched = "streaming [utf8_ascii ''data: hel'',
                 utf8_ascii ''lo '' @ [0x0A] @ utf8_ascii ''data:   '' @ [0x0A] @ utf8_ascii ''data:world'']
        None"
  have tr: "messages (queryKnowledgeBaseStream (getErrorMessage []) returning ?fetched) =
            [ascii ''hello'', ascii ''world'']"
    by (simp add: query_returning decode_eval string_eval)
  from payloads_are_trimmed_lines [of "getErrorMessage []" returning ?fetched]
  have "\<forall>p\<in>set [ascii ''hello'', ascii ''world''].
          p \<noteq> [] \<and> newline \<notin> set p \<and> \<not> is_whitespace (hd p) \<and> \<not> is_whitespace (last p)"
    unfolding tr by blast
  with tr show ?thesis
    by simp
qed

end
